theory Spec2Isabelle
  imports Main "HOL-Library.AList"
begin

section \<open>Characters and the string methods the event module calls\<close>

text \<open>
  A Python \<open>str\<close> is modelled as a \<^typ>\<open>string\<close>; its characters are the code points
  below 256. The predicates below give, for these code points, what \<open>str.isspace\<close>,
  \<open>str.lower\<close>, \<open>str.strip\<close>, \<open>str.startswith\<close>, \<open>str.split\<close>, \<open>str.replace\<close> and
  \<open>int\<close> do in CPython 3.
\<close>

abbreviation CR :: char where "CR \<equiv> CHR 0x0D"
abbreviation LF :: char where "LF \<equiv> CHR 0x0A"
abbreviation DQ :: char where "DQ \<equiv> CHR 0x22"
abbreviation BS :: char where "BS \<equiv> CHR 0x5C"

definition isspace :: "char \<Rightarrow> bool" where
  "isspace c \<longleftrightarrow>
     c \<in> set [CHR 0x09, CHR 0x0A, CHR 0x0B, CHR 0x0C, CHR 0x0D, CHR 0x1C, CHR 0x1D,
               CHR 0x1E, CHR 0x1F, CHR 0x20, CHR 0x85, CHR 0xA0]"

definition strip :: "string \<Rightarrow> string" where
  "strip s = rev (dropWhile isspace (rev (dropWhile isspace s)))"

definition lower_char :: "char \<Rightarrow> char" where
  "lower_char c =
     (let n = (of_char c :: nat)
      in if (65 \<le> n \<and> n \<le> 90) \<or> (192 \<le> n \<and> n \<le> 222 \<and> n \<noteq> 215)
         then char_of (n + 32) else c)"

definition lower :: "string \<Rightarrow> string" where
  "lower s = map lower_char s"

definition startswith :: "string \<Rightarrow> string \<Rightarrow> bool" where
  "startswith s p \<longleftrightarrow> take (length p) s = p"

text \<open>\<open>s.split(sep)\<close> for a one-character separator: the fields between the separators,
  never an empty list.\<close>

fun split :: "char \<Rightarrow> string \<Rightarrow> string list" where
  "split sep [] = [[]]"
| "split sep (c # cs) =
     (if c = sep then [] # split sep cs
      else (case split sep cs of [] \<Rightarrow> [[c]] | f # fs \<Rightarrow> (c # f) # fs))"

text \<open>\<open>s.replace(old, new)\<close> for a one-character \<open>old\<close>.\<close>

definition replace :: "char \<Rightarrow> string \<Rightarrow> string \<Rightarrow> string" where
  "replace old new s = concat (map (\<lambda>c. if c = old then new else [c]) s)"

subsection \<open>\<open>int(str)\<close>\<close>

text \<open>
  \<open>int\<close> skips white space at both ends (the ASCII white space, and the two other
  white-space code points below 256, which it first turns into blanks; the separators
  0x1C to 0x1F are not skipped), reads an optional sign and then decimal digits, where
  a single underscore may stand between two digits. Anything else is a \<open>ValueError\<close>,
  here \<open>None\<close>. The interpreter's configurable limit on the number of digits is not
  modelled.
\<close>

definition int_space :: "char \<Rightarrow> bool" where
  "int_space c \<longleftrightarrow>
     c \<in> set [CHR 0x09, CHR 0x0A, CHR 0x0B, CHR 0x0C, CHR 0x0D, CHR 0x20, CHR 0x85, CHR 0xA0]"

definition is_digit :: "char \<Rightarrow> bool" where
  "is_digit c \<longleftrightarrow> c \<in> set ''0123456789''"

fun digit_groups :: "string \<Rightarrow> bool" where
  "digit_groups [] = False"
| "digit_groups [c] = is_digit c"
| "digit_groups (c # d # cs) =
     (is_digit c \<and> (if d = CHR ''_'' then digit_groups cs else digit_groups (d # cs)))"

definition digits_val :: "string \<Rightarrow> int" where
  "digits_val ds =
     foldl (\<lambda>a c. if c = CHR ''_'' then a else 10 * a + (int (of_char c) - 48)) 0 ds"

definition unsigned_int :: "string \<Rightarrow> int option" where
  "unsigned_int ds = (if digit_groups ds then Some (digits_val ds) else None)"

definition py_int :: "string \<Rightarrow> int option" where
  "py_int s =
     (case rev (dropWhile int_space (rev (dropWhile int_space s))) of
        [] \<Rightarrow> None
      | c # cs \<Rightarrow>
          if c = CHR ''-'' then map_option uminus (unsigned_int cs)
          else if c = CHR ''+'' then unsigned_int cs
          else unsigned_int (c # cs))"

section \<open>Regular expressions\<close>

text \<open>
  The two patterns of the module are values of the datatype \<open>re\<close>, and \<open>ms\<close> is the
  backtracking matcher of Python's \<open>re\<close> module for the constructs they use: \<open>ms r (s, g)\<close>
  lists, in the order in which backtracking tries them, every way \<open>r\<close> can match a
  prefix of \<open>s\<close>, each as the rest of the input and the groups captured so far. The match
  Python reports is the first of the list.
\<close>

datatype cset_item = Ch char | WS

datatype re =
    Dot
  | Lit char
  | Set "cset_item list"
  | NSet "cset_item list"
  | Eos
  | Cat re re
  | Alt re re
  | Star bool re
  | Grp nat re

fun in_item :: "char \<Rightarrow> cset_item \<Rightarrow> bool" where
  "in_item c (Ch a) = (c = a)"
| "in_item c WS = isspace c"

definition in_set :: "char \<Rightarrow> cset_item list \<Rightarrow> bool" where
  "in_set c items = list_ex (in_item c) items"

type_synonym groups = "nat \<Rightarrow> string"
type_synonym mstate = "string \<times> groups"

text \<open>One character of the input, when it satisfies \<open>P\<close>.\<close>

definition one_char :: "(char \<Rightarrow> bool) \<Rightarrow> mstate \<Rightarrow> mstate list" where
  "one_char P x =
     (case fst x of [] \<Rightarrow> [] | c # t \<Rightarrow> if P c then [(t, snd x)] else [])"

definition shorter :: "string \<Rightarrow> mstate \<Rightarrow> bool" where
  "shorter s y \<longleftrightarrow> length (fst y) < length s"

definition capture :: "nat \<Rightarrow> string \<Rightarrow> mstate \<Rightarrow> mstate" where
  "capture n s y = (fst y, (snd y)(n := take (length s - length (fst y)) s))"

text \<open>
  \<open>Star True r\<close> is the greedy \<open>r*\<close> (one more round of \<open>r\<close> is tried before leaving the
  loop), \<open>Star False r\<close> the lazy \<open>r*?\<close> (leaving is tried first). A round of a loop that
  consumes nothing is not repeated. \<open>Eos\<close> is \<open>$\<close>: the end of the input, or the place
  before a newline that ends it.
\<close>

function ms :: "re \<Rightarrow> mstate \<Rightarrow> mstate list" where
  "ms Dot x = one_char (\<lambda>c. c \<noteq> LF) x"
| "ms (Lit a) x = one_char (\<lambda>c. c = a) x"
| "ms (Set items) x = one_char (\<lambda>c. in_set c items) x"
| "ms (NSet items) x = one_char (\<lambda>c. \<not> in_set c items) x"
| "ms Eos x = (if fst x = [] \<or> fst x = [LF] then [x] else [])"
| "ms (Cat a b) x = concat (map (ms b) (ms a x))"
| "ms (Alt a b) x = ms a x @ ms b x"
| "ms (Star greedy a) x =
     (let more = concat (map (ms (Star greedy a)) (filter (shorter (fst x)) (ms a x)))
      in if greedy then more @ [x] else x # more)"
| "ms (Grp n a) x = map (capture n (fst x)) (ms a x)"
  by pat_completeness auto
termination
  by (relation "measures [\<lambda>(r, x). size r, \<lambda>(r, x). length (fst x)]")
     (auto simp: shorter_def)

definition plus :: "bool \<Rightarrow> re \<Rightarrow> re" where
  "plus greedy r = Cat r (Star greedy r)"

text \<open>\<open>pattern.findall(s)\<close> for a pattern with two groups: scan from the left, take the
  first match at the earliest place, go on behind it. A group that took no part in a
  match is the empty string. Neither pattern of the module matches the empty string;
  behind an empty match the scan here moves on by one character.\<close>

function findall_groups :: "re \<Rightarrow> string \<Rightarrow> groups list" where
  "findall_groups r s =
     (case ms r (s, \<lambda>_. []) of
        [] \<Rightarrow> (case s of [] \<Rightarrow> [] | _ # t \<Rightarrow> findall_groups r t)
      | y # _ \<Rightarrow>
          snd y # (if length (fst y) < length s then findall_groups r (fst y)
                   else (case s of [] \<Rightarrow> [] | _ # t \<Rightarrow> findall_groups r t)))"
  by pat_completeness auto
termination
  by (relation "measure (\<lambda>(r, s). length s)") auto

definition findall :: "re \<Rightarrow> string \<Rightarrow> (string \<times> string) list" where
  "findall r s = map (\<lambda>g. (g 1, g 2)) (findall_groups r s)"

text \<open>\<^verbatim>\<open>_REG_PARSE_KEY_VALUE = (?P<key>.+?)(?:=)(?P<value>.+?)(?:;|$)\<close>\<close>

definition REG_PARSE_KEY_VALUE :: re where
  "REG_PARSE_KEY_VALUE =
     Cat (Grp 1 (plus False Dot))
       (Cat (Lit (CHR ''=''))
         (Cat (Grp 2 (plus False Dot))
           (Alt (Lit (CHR '';'')) Eos)))"

text \<open>\<^verbatim>\<open>"[^"\\]*(?:\\.[^"\\]*)*"|[^\s"]+\<close>, the alternative both groups of
  \<^verbatim>\<open>_REG_PARSE_MALFORMED_JSON\<close> hold, and the pattern itself:
  \<^verbatim>\<open>(?P<key>...)\s:\s(?P<value>...)\<close>.\<close>

definition json_token :: re where
  "json_token =
     Alt (Cat (Lit DQ)
           (Cat (Star True (NSet [Ch DQ, Ch BS]))
             (Cat (Star True (Cat (Lit BS) (Cat Dot (Star True (NSet [Ch DQ, Ch BS])))))
               (Lit DQ))))
         (plus True (NSet [WS, Ch DQ]))"

definition REG_PARSE_MALFORMED_JSON :: re where
  "REG_PARSE_MALFORMED_JSON =
     Cat (Grp 1 json_token)
       (Cat (Set [WS]) (Cat (Lit (CHR '':'')) (Cat (Set [WS]) (Grp 2 json_token))))"

section \<open>Payload decoding (the body of the loop of \<open>event_actions\<close>)\<close>

text \<open>
  A Python \<open>dict\<close> is an association list with distinct keys in insertion order;
  \<open>d[k] = v\<close> is \<^const>\<open>AList.update\<close>, which replaces the value of a key in place and
  appends a new key. A value of the payload is a string, or for the key \<open>data\<close> the
  nested dict.
\<close>

datatype pvalue = Str string | Dict "(string \<times> string) list"

type_synonym payload = "(string \<times> pvalue) list"

definition parse_data :: "string \<Rightarrow> (string \<times> string) list" where
  "parse_data v =
     foldl (\<lambda>d (k, x). AList.update (replace DQ [] k) (replace DQ [] x) d) []
       (findall REG_PARSE_MALFORMED_JSON v)"

text \<open>What the loop stores under a key: the matched text, or for \<open>data\<close> the nested
  dict.\<close>

definition payload_value :: "string \<Rightarrow> string \<Rightarrow> pvalue" where
  "payload_value k v = (if k = ''data'' then Dict (parse_data v) else Str v)"

definition decode_payload :: "string \<Rightarrow> payload" where
  "decode_payload event_info =
     foldl (\<lambda>p (k, v). AList.update k (payload_value k v) p) []
       (findall REG_PARSE_KEY_VALUE (replace LF [] (strip event_info)))"

section \<open>The streaming session\<close>

datatype exc =
    RequestException string
  | HTTPError string
  | OtherError string
  | ValueError
  | KeyError
  | IndexError
  | RuntimeError
  | CommError exc

text \<open>
  Modelled from the spec: the streaming response that \<open>self.command(..., stream=True)\<close>
  returns (the \<open>requests\<close> response object and \<open>Http.command\<close> are not part of the
  translated file). Section 6 of the specification gives it a decoded-character iterator
  and a read of a given number of characters, and scoped release. The record holds the
  decoded characters the body still has to deliver (\<open>pending\<close>) and what the transport
  does once they are used up (\<open>failure\<close>: \<open>None\<close> when the body ends, \<open>Some e\<close> when the
  transport raises \<open>e\<close>). The other fields only record what the session did: how often
  the connection was opened and released, how many reads came after a release, which
  exceptions the transport raised, and which lines the frame reader handed out.
\<close>

record session =
  pending :: string
  failure :: "exc option"
  opened :: nat
  released :: nat
  late_reads :: nat
  raised :: "exc list"
  seen :: "string list"

datatype 'a got = Got 'a | Eof | Fails exc

definition note_read :: "session \<Rightarrow> session" where
  "note_read r = (if 0 < released r then r\<lparr>late_reads := late_reads r + 1\<rparr> else r)"

definition transport_raises :: "exc \<Rightarrow> session \<Rightarrow> session" where
  "transport_raises e r = r\<lparr>pending := [], raised := raised r @ [e]\<rparr>"

text \<open>Modelled from the spec: the next item of \<open>ret.iter_content(decode_unicode=True)\<close>,
  one decoded character.\<close>

definition read_char :: "session \<Rightarrow> char got \<times> session" where
  "read_char r =
     (case pending r of
        c # cs \<Rightarrow> (Got c, (note_read r)\<lparr>pending := cs\<rparr>)
      | [] \<Rightarrow>
          (case failure r of
             None \<Rightarrow> (Eof, note_read r)
           | Some e \<Rightarrow> (Fails e, transport_raises e (note_read r))))"

text \<open>Modelled from the spec: the first item of
  \<open>ret.iter_content(chunk_size=n, decode_unicode=True)\<close>, the read of \<open>n\<close> characters by
  count. When \<open>n\<close> characters are pending they are the item. When fewer are pending, a
  failing transport raises; a body that ends delivers what is left, and no item when
  nothing is left. The specification describes no read of a count below one; here such
  a read delivers no item.\<close>

definition read_sized :: "int \<Rightarrow> session \<Rightarrow> string got \<times> session" where
  "read_sized n r =
     (if n \<le> 0 then (Eof, note_read r)
      else if nat n \<le> length (pending r)
      then (Got (take (nat n) (pending r)), (note_read r)\<lparr>pending := drop (nat n) (pending r)\<rparr>)
      else (case failure r of
              Some e \<Rightarrow> (Fails e, transport_raises e (note_read r))
            | None \<Rightarrow>
                if pending r = [] then (Eof, note_read r)
                else (Got (pending r), (note_read r)\<lparr>pending := []\<rparr>)))"

text \<open>Modelled from the spec: the release of the connection, \<open>ret.close()\<close>, which the
  \<open>with\<close> statement calls when its block is left.\<close>

definition close :: "session \<Rightarrow> session" where
  "close r = r\<lparr>released := released r + 1\<rparr>"

section \<open>Generators\<close>

text \<open>
  A generator is its state together with what \<open>next\<close> and \<open>close\<close> do to it. \<open>next\<close>
  runs the body up to the following \<open>yield\<close> and gives the item (\<open>Yield\<close>), or finds the
  body finished (\<open>Stop\<close>, Python's \<open>StopIteration\<close>), or lets an exception out (\<open>Raise\<close>).
\<close>

datatype 'a step = Yield 'a | Stop | Raise exc

subsection \<open>\<open>_event_lines\<close>\<close>

text \<open>
  \<open>event_lines_resume line r\<close> runs the loop of \<open>_event_lines\<close> with the buffer \<open>line\<close>
  until it yields or ends. The generator starts with an empty buffer, and when it is
  resumed after a \<open>yield\<close> it first clears the buffer, so every \<open>next\<close> is
  \<open>event_lines_resume []\<close>. \<open>line[-2:]\<close> is the last two elements of the buffer, or all of
  a shorter one.
\<close>

function event_lines_resume :: "string \<Rightarrow> session \<Rightarrow> string step \<times> session" where
  "event_lines_resume line r =
     (case read_char r of
        (Got c, r') \<Rightarrow>
          (let line' = line @ [c]
           in if drop (length line' - 2) line' = [CR, LF]
              then (Yield (strip line'), r'\<lparr>seen := seen r' @ [strip line']\<rparr>)
              else event_lines_resume line' r')
      | (Eof, r') \<Rightarrow> (Stop, r')
      | (Fails e, r') \<Rightarrow> (Raise e, r'))"
  by pat_completeness auto
termination
  by (relation "measure (\<lambda>(line, r). length (pending r))")
     (auto simp: read_char_def note_read_def split: list.splits option.splits if_splits)

definition event_lines_next :: "session \<Rightarrow> string step \<times> session" where
  "event_lines_next r = event_lines_resume [] r"

subsection \<open>\<open>Event.event_stream\<close>\<close>

definition chunk_header :: "string \<Rightarrow> bool" where
  "chunk_header line \<longleftrightarrow> startswith (lower line) ''content-length:''"

text \<open>\<open>int(line.split(":")[1])\<close>\<close>

definition chunk_size_of :: "string \<Rightarrow> exc + int" where
  "chunk_size_of line =
     (case split (CHR '':'') line of
        a # f # fs \<Rightarrow> (case py_int f of None \<Rightarrow> Inl ValueError | Some n \<Rightarrow> Inr n)
      | _ \<Rightarrow> Inl IndexError)"

text \<open>
  The \<open>for\<close> loop of \<open>event_stream\<close>, from the request for the next line to the next
  \<open>yield\<close> or to the end of the loop. \<open>next\<close> on an iterator without an item raises
  \<open>StopIteration\<close>, which the generator it is raised in turns into a \<open>RuntimeError\<close>.
\<close>

function event_stream_loop :: "session \<Rightarrow> string step \<times> session" where
  "event_stream_loop r =
     (case event_lines_next r of
        (Stop, r') \<Rightarrow> (Stop, r')
      | (Raise e, r') \<Rightarrow> (Raise e, r')
      | (Yield line, r') \<Rightarrow>
          if chunk_header line then
            (case chunk_size_of line of
               Inl e \<Rightarrow> (Raise e, r')
             | Inr chunk_size \<Rightarrow>
                 (case read_sized chunk_size r' of
                    (Got event_info, r'') \<Rightarrow> (Yield event_info, r'')
                  | (Eof, r'') \<Rightarrow> (Raise RuntimeError, r'')
                  | (Fails e, r'') \<Rightarrow> (Raise e, r'')))
          else event_stream_loop r')"
  by pat_completeness auto

text \<open>The \<open>except (RequestException, HTTPError)\<close> clause: such an exception leaves as
  \<open>CommError(error)\<close>, raised from \<open>error\<close>, which the argument of \<open>CommError\<close> records;
  every other exception passes.\<close>

fun transport_error :: "exc \<Rightarrow> bool" where
  "transport_error (RequestException m) = True"
| "transport_error (HTTPError m) = True"
| "transport_error e = False"

definition wrap :: "exc \<Rightarrow> exc" where
  "wrap e = (if transport_error e then CommError e else e)"

text \<open>
  The state of the generator \<open>event_stream\<close> returns: not started (the session is the
  one its request will open), suspended at its \<open>yield\<close> inside the \<open>try\<close> and the \<open>with\<close>
  block, or finished. \<open>event_stream_run\<close> runs the body of the \<open>with\<close> block up to the
  next \<open>yield\<close>; when the block is left, by the end of the loop or by an exception, the
  \<open>with\<close> statement closes the response.
\<close>

datatype es_state = Unstarted session | Suspended session | Finished session

fun session_of :: "es_state \<Rightarrow> session" where
  "session_of (Unstarted r) = r"
| "session_of (Suspended r) = r"
| "session_of (Finished r) = r"

definition event_stream_run :: "session \<Rightarrow> string step \<times> es_state" where
  "event_stream_run r =
     (case event_stream_loop r of
        (Yield event_info, r') \<Rightarrow> (Yield event_info, Suspended r')
      | (Stop, r') \<Rightarrow> (Stop, Finished (close r'))
      | (Raise e, r') \<Rightarrow> (Raise (wrap e), Finished (close r')))"

text \<open>Modelled from the spec: \<open>self.command(...)\<close> (\<open>Http.command\<close>, not part of the
  translated file) opens the one connection of the call and returns its streaming
  response. A request that fails is not modelled, and neither are the arguments of the
  request (the event codes, the retries, the timeout without a read limit).\<close>

definition command :: "session \<Rightarrow> session" where
  "command r = r\<lparr>opened := opened r + 1\<rparr>"

text \<open>\<open>next\<close> of the generator. The first one makes the request and enters the \<open>with\<close>
  block; the response is taken as one of decoded characters, so that the fallback of
  its encoding to UTF-8 has no counterpart here, and neither has the logging filter.\<close>

fun event_stream_next :: "es_state \<Rightarrow> string step \<times> es_state" where
  "event_stream_next (Unstarted r) = event_stream_run (command r)"
| "event_stream_next (Suspended r) = event_stream_run r"
| "event_stream_next (Finished r) = (Stop, Finished r)"

text \<open>\<open>close()\<close> of the generator, which Python also calls when it finalises a generator
  that is no longer referenced: \<open>GeneratorExit\<close> is raised at the \<open>yield\<close>, the \<open>except\<close>
  clause does not catch it, and the \<open>with\<close> statement closes the response. A generator
  that was never started runs no code.\<close>

fun event_stream_close :: "es_state \<Rightarrow> es_state" where
  "event_stream_close (Unstarted r) = Finished r"
| "event_stream_close (Suspended r) = Finished (close r)"
| "event_stream_close (Finished r) = Finished r"

subsection \<open>\<open>Event.event_actions\<close>\<close>

text \<open>
  The state of the generator of \<open>event_actions\<close> is the \<open>event_stream\<close> generator its
  \<open>for\<close> loop iterates. \<open>payload["Code"]\<close> raises \<open>KeyError\<close> for a payload without the
  key; the exception leaves \<open>event_actions\<close>, whose frame held the only reference to the
  inner generator, so that CPython finalises the inner generator at once. Closing the
  generator of \<open>event_actions\<close> ends its frame in the same way.
\<close>

type_synonym event_record = "pvalue \<times> payload"

definition event_actions_next :: "es_state \<Rightarrow> event_record step \<times> es_state" where
  "event_actions_next g =
     (case event_stream_next g of
        (Yield event_info, g') \<Rightarrow>
          (let payload = decode_payload event_info
           in case map_of payload ''Code'' of
                None \<Rightarrow> (Raise KeyError, event_stream_close g')
              | Some code \<Rightarrow> (Yield (code, payload), g'))
      | (Stop, g') \<Rightarrow> (Stop, g')
      | (Raise e, g') \<Rightarrow> (Raise e, g'))"

definition event_actions_close :: "es_state \<Rightarrow> es_state" where
  "event_actions_close g = event_stream_close g"

subsection \<open>The consumer\<close>

text \<open>
  A consumer asks a generator for at most \<open>n\<close> items and then closes it. The iteration
  ends earlier when the generator stops (\<open>Done\<close>) or raises (\<open>Raised\<close>); a consumer that
  has taken its \<open>n\<close> items abandons the generator (\<open>Abandoned\<close>).
\<close>

datatype outcome = Done | Raised exc | Abandoned

fun consume ::
  "('g \<Rightarrow> 'a step \<times> 'g) \<Rightarrow> ('g \<Rightarrow> 'g) \<Rightarrow> nat \<Rightarrow> 'g \<Rightarrow> 'a list \<times> outcome \<times> 'g" where
  "consume nxt cls 0 g = ([], Abandoned, cls g)"
| "consume nxt cls (Suc n) g =
     (case nxt g of
        (Yield x, g') \<Rightarrow> (case consume nxt cls n g' of (xs, out, gf) \<Rightarrow> (x # xs, out, gf))
      | (Stop, g') \<Rightarrow> ([], Done, g')
      | (Raise e, g') \<Rightarrow> ([], Raised e, g'))"

definition fresh :: "string \<Rightarrow> exc option \<Rightarrow> session" where
  "fresh body f =
     \<lparr>pending = body, failure = f, opened = 0, released = 0, late_reads = 0,
      raised = [], seen = []\<rparr>"

definition stream_events :: "nat \<Rightarrow> session \<Rightarrow> string list \<times> outcome \<times> es_state" where
  "stream_events n r = consume event_stream_next event_stream_close n (Unstarted r)"

definition action_events :: "nat \<Rightarrow> session \<Rightarrow> event_record list \<times> outcome \<times> es_state" where
  "action_events n r = consume event_actions_next event_actions_close n (Unstarted r)"

section \<open>Notions the statements use\<close>


text \<open>A string that holds a carriage return directly followed by a line feed.\<close>

fun has_crlf :: "string \<Rightarrow> bool" where
  "has_crlf (a # b # cs) = (a = CR \<and> b = LF \<or> has_crlf (b # cs))"
| "has_crlf cs = False"

text \<open>A line that is a chunk header and whose count \<open>int\<close> accepts, and the number of
  such lines among the lines the frame reader handed out so far.\<close>

definition valid_header :: "string \<Rightarrow> bool" where
  "valid_header line \<longleftrightarrow> chunk_header line \<and> (\<exists>n. chunk_size_of line = Inr n)"

definition headers_seen :: "session \<Rightarrow> nat" where
  "headers_seen r = length (filter valid_header (seen r))"

text \<open>
  A well-formed chunk is written as its parts: the lines before the header, none of
  them a chunk header; the header line, which announces the length of the payload; and
  the payload, a non-empty text. \<open>render\<close> is the text the chunk contributes to the
  body.
\<close>

type_synonym chunk = "string list \<times> string \<times> string"

definition noise_line :: "string \<Rightarrow> bool" where
  "noise_line l \<longleftrightarrow> \<not> has_crlf l \<and> \<not> chunk_header (strip l)"

definition lines_text :: "string list \<Rightarrow> string" where
  "lines_text ls = concat (map (\<lambda>l. l @ [CR, LF]) ls)"

fun render :: "chunk \<Rightarrow> string" where
  "render (ns, h, p) = lines_text ns @ h @ [CR, LF] @ p"

fun chunk_payload :: "chunk \<Rightarrow> string" where
  "chunk_payload (ns, h, p) = p"

fun well_formed_chunk :: "chunk \<Rightarrow> bool" where
  "well_formed_chunk (ns, h, p) \<longleftrightarrow>
     list_all noise_line ns \<and> \<not> has_crlf h \<and> chunk_header (strip h) \<and>
     chunk_size_of (strip h) = Inr (int (length p)) \<and> p \<noteq> []"

text \<open>
  The states a generator of \<open>event_stream\<close> goes through, for the proofs: not started
  on a session that nothing has touched; suspended with the connection open, nothing
  released, no exception raised and \<open>k\<close> accepted chunk headers read; finished with the
  connection opened and released once, where an iteration that ended without an
  exception has read \<open>k\<close> accepted chunk headers, and one that ended with an exception
  either raised it in the generator or wrapped the one exception of the transport.
\<close>

definition local_error :: "exc \<Rightarrow> bool" where
  "local_error e \<longleftrightarrow> e = ValueError \<or> e = IndexError \<or> e = RuntimeError \<or> e = KeyError"

definition unstarted :: "exc option \<Rightarrow> es_state \<Rightarrow> bool" where
  "unstarted f g \<longleftrightarrow>
     (\<exists>r. g = Unstarted r \<and> opened r = 0 \<and> released r = 0 \<and> late_reads r = 0 \<and>
        raised r = [] \<and> failure r = f \<and> headers_seen r = 0)"

definition running :: "exc option \<Rightarrow> nat \<Rightarrow> es_state \<Rightarrow> bool" where
  "running f k g \<longleftrightarrow>
     (\<exists>r. g = Suspended r \<and> opened r = 1 \<and> released r = 0 \<and> late_reads r = 0 \<and>
        raised r = [] \<and> failure r = f \<and> headers_seen r = k)"

definition ended :: "exc option \<Rightarrow> nat \<Rightarrow> outcome \<Rightarrow> es_state \<Rightarrow> bool" where
  "ended f k out g \<longleftrightarrow>
     (\<exists>r. g = Finished r \<and> opened r = 1 \<and> released r = 1 \<and> late_reads r = 0 \<and>
        failure r = f \<and>
        (case out of
           Raised e \<Rightarrow>
             (raised r = [] \<and> local_error e) \<or>
             (\<exists>e0. raised r = [e0] \<and> f = Some e0 \<and> e = wrap e0)
         | _ \<Rightarrow> raised r = [] \<and> headers_seen r = k))"

section \<open>Termination of the loop of \<open>event_stream\<close>\<close>

text \<open>Every line the frame reader yields has used up characters of the body, hence the
  loop ends.\<close>

declare event_lines_resume.simps [simp del]

lemma read_char_shorter:
  "read_char r = (Got c, r') \<Longrightarrow> length (pending r') < length (pending r)"
  by (auto simp: read_char_def note_read_def split: list.splits option.splits if_splits)

lemma event_lines_resume_shorter:
  "event_lines_resume line r = (Yield l, r') \<Longrightarrow> length (pending r') < length (pending r)"
proof (induction line r rule: event_lines_resume.induct)
  case (1 line r)
  obtain g r1 where rc: "read_char r = (g, r1)"
    by (cases "read_char r")
  show ?case
  proof (cases g)
    case (Got c)
    with rc have got: "read_char r = (Got c, r1)" by simp
    have lt: "length (pending r1) < length (pending r)"
      using read_char_shorter [OF got] .
    show ?thesis
    proof (cases "drop (length (line @ [c]) - 2) (line @ [c]) = [CR, LF]")
      case True
      with got "1.prems" have "pending r' = pending r1"
        by (auto simp: event_lines_resume.simps [of line r] Let_def)
      with lt show ?thesis by simp
    next
      case False
      with got "1.prems" have "event_lines_resume (line @ [c]) r1 = (Yield l, r')"
        by (auto simp: event_lines_resume.simps [of line r] Let_def split: if_splits)
      from "1.IH" [OF got [symmetric] refl refl False this] lt show ?thesis by simp
    qed
  next
    case Eof
    with rc "1.prems" show ?thesis by (simp add: event_lines_resume.simps [of line r])
  next
    case (Fails e)
    with rc "1.prems" show ?thesis by (simp add: event_lines_resume.simps [of line r])
  qed
qed

termination event_stream_loop
  by (relation "measure (\<lambda>r. length (pending r))")
     (auto simp: event_lines_next_def dest: event_lines_resume_shorter [OF sym])

section \<open>Dicts built by assignment in a loop\<close>

lemma split_nonempty: "split sep s \<noteq> []"
  by (induction s) (auto split: list.splits)


lemma replace_empty: "replace old [] s = filter (\<lambda>c. c \<noteq> old) s"
  by (induction s) (auto simp: replace_def)





lemma set_alist_update: "set (AList.update k v al) \<subseteq> insert (k, v) (set al)"
  by (induction al) auto

lemma set_foldl_update:
  "set (foldl (\<lambda>d (a, v). AList.update (h a) (f a v) d) d0 ps)
     \<subseteq> set d0 \<union> (\<lambda>(a, v). (h a, f a v)) ` set ps"
proof (induction ps rule: rev_induct)
  case Nil
  show ?case by simp
next
  case (snoc p ps)
  obtain a v where p: "p = (a, v)" by (cases p)
  show ?case using snoc set_alist_update [of "h a" "f a v"]
    by (fastforce simp: p)
qed

section \<open>What one step of a generator does to the session\<close>

lemma event_lines_resume_Nil:
  "pending r = [] \<Longrightarrow>
   event_lines_resume line r =
     (case failure r of
        None \<Rightarrow> (Stop, note_read r)
      | Some e \<Rightarrow> (Raise e, transport_raises e (note_read r)))"
  by (simp add: event_lines_resume.simps [of line r] read_char_def split: option.splits)

lemma event_lines_resume_Cons:
  "pending r = c # cs \<Longrightarrow>
   event_lines_resume line r =
     (if drop (length (line @ [c]) - 2) (line @ [c]) = [CR, LF]
      then (Yield (strip (line @ [c])),
            (note_read r)\<lparr>pending := cs, seen := seen r @ [strip (line @ [c])]\<rparr>)
      else event_lines_resume (line @ [c]) ((note_read r)\<lparr>pending := cs\<rparr>))"
  by (simp add: event_lines_resume.simps [of line r] read_char_def Let_def note_read_def)

lemma event_lines_resume_frame:
  "event_lines_resume line r = (s, r') \<Longrightarrow>
     opened r' = opened r \<and> failure r' = failure r \<and> released r' = released r \<and>
     (released r = 0 \<longrightarrow> late_reads r' = late_reads r) \<and>
     (case s of
        Yield l \<Rightarrow> seen r' = seen r @ [l] \<and> raised r' = raised r
      | Stop \<Rightarrow> seen r' = seen r \<and> raised r' = raised r \<and> failure r = None \<and> pending r' = []
      | Raise e \<Rightarrow> seen r' = seen r \<and> raised r' = raised r @ [e] \<and> failure r = Some e)"
proof (induction "pending r" arbitrary: r line)
  case Nil
  then show ?case
    by (auto simp: event_lines_resume_Nil [OF Nil.hyps [symmetric]] note_read_def
        transport_raises_def split: option.splits if_splits)
next
  case (Cons c cs)
  let ?r2 = "(note_read r)\<lparr>pending := cs\<rparr>"
  have p2: "cs = pending ?r2" by simp
  show ?case
  proof (cases "drop (length (line @ [c]) - 2) (line @ [c]) = [CR, LF]")
    case True
    with Cons.prems show ?thesis
      by (auto simp: event_lines_resume_Cons [OF Cons.hyps(2) [symmetric]] note_read_def
          split: if_splits)
  next
    case False
    with Cons.prems have "event_lines_resume (line @ [c]) ?r2 = (s, r')"
      by (auto simp: event_lines_resume_Cons [OF Cons.hyps(2) [symmetric]] split: if_splits)
    from Cons.hyps(1) [OF p2 this] show ?thesis
      by (auto simp: note_read_def split: if_splits step.splits)
  qed
qed

lemma read_sized_frame:
  "read_sized n r = (g, r') \<Longrightarrow>
     opened r' = opened r \<and> failure r' = failure r \<and> released r' = released r \<and>
     seen r' = seen r \<and>
     (released r = 0 \<longrightarrow> late_reads r' = late_reads r) \<and>
     (case g of
        Got p \<Rightarrow> raised r' = raised r
      | Eof \<Rightarrow> raised r' = raised r
      | Fails e \<Rightarrow> raised r' = raised r @ [e] \<and> failure r = Some e)"
  by (auto simp: read_sized_def note_read_def transport_raises_def
      split: if_splits option.splits)

declare event_stream_loop.simps [simp del]

lemma event_stream_loop_unfold:
  "event_lines_next r = (sl, r1) \<Longrightarrow>
   event_stream_loop r =
     (case sl of
        Stop \<Rightarrow> (Stop, r1)
      | Raise e \<Rightarrow> (Raise e, r1)
      | Yield line \<Rightarrow>
          if chunk_header line then
            (case chunk_size_of line of
               Inl e \<Rightarrow> (Raise e, r1)
             | Inr chunk_size \<Rightarrow>
                 (case read_sized chunk_size r1 of
                    (Got event_info, r2) \<Rightarrow> (Yield event_info, r2)
                  | (Eof, r2) \<Rightarrow> (Raise RuntimeError, r2)
                  | (Fails e, r2) \<Rightarrow> (Raise e, r2)))
          else event_stream_loop r1)"
  by (simp add: event_stream_loop.simps [of r])

lemma chunk_size_of_error:
  "chunk_size_of line = Inl e \<Longrightarrow> e = ValueError \<or> e = IndexError"
  by (auto simp: chunk_size_of_def split: list.splits option.splits)

lemma headers_seen_snoc:
  "seen r1 = seen r @ [line] \<Longrightarrow>
   headers_seen r1 = headers_seen r + (if valid_header line then 1 else 0)"
  by (simp add: headers_seen_def)

lemma event_stream_loop_frame:
  "event_stream_loop r = (s, r') \<Longrightarrow>
     opened r' = opened r \<and> failure r' = failure r \<and> released r' = released r \<and>
     (released r = 0 \<longrightarrow> late_reads r' = late_reads r) \<and>
     (case s of
        Yield p \<Rightarrow> raised r' = raised r \<and> headers_seen r' = headers_seen r + 1
      | Stop \<Rightarrow> raised r' = raised r \<and> headers_seen r' = headers_seen r
      | Raise e \<Rightarrow>
          (raised r' = raised r @ [e] \<and> failure r = Some e) \<or>
          (raised r' = raised r \<and> (e = ValueError \<or> e = IndexError \<or> e = RuntimeError)))"
proof (induction "length (pending r)" arbitrary: r rule: less_induct)
  case less
  obtain sl r1 where el: "event_lines_next r = (sl, r1)"
    by (cases "event_lines_next r")
  note fr = event_lines_resume_frame [OF el [unfolded event_lines_next_def]]
  note unf = event_stream_loop_unfold [OF el]
  show ?case
  proof (cases sl)
    case Stop
    with less.prems unf fr show ?thesis by (auto simp: headers_seen_def)
  next
    case (Raise e)
    with less.prems unf fr show ?thesis by (auto simp: headers_seen_def)
  next
    case (Yield line)
    with fr have sn: "seen r1 = seen r @ [line]" and rs: "raised r1 = raised r" by auto
    note hs = headers_seen_snoc [OF sn]
    show ?thesis
    proof (cases "chunk_header line")
      case False
      with less.prems unf Yield have rec: "event_stream_loop r1 = (s, r')" by simp
      have "length (pending r1) < length (pending r)"
        using el Yield event_lines_resume_shorter by (simp add: event_lines_next_def)
      from less.hyps [OF this rec] have ih:
        "opened r' = opened r1 \<and> failure r' = failure r1 \<and> released r' = released r1 \<and>
         (released r1 = 0 \<longrightarrow> late_reads r' = late_reads r1) \<and>
         (case s of
            Yield p \<Rightarrow> raised r' = raised r1 \<and> headers_seen r' = headers_seen r1 + 1
          | Stop \<Rightarrow> raised r' = raised r1 \<and> headers_seen r' = headers_seen r1
          | Raise e \<Rightarrow>
              (raised r' = raised r1 @ [e] \<and> failure r1 = Some e) \<or>
              (raised r' = raised r1 \<and> (e = ValueError \<or> e = IndexError \<or> e = RuntimeError)))" .
      have h1: "headers_seen r1 = headers_seen r"
        using hs False by (simp add: valid_header_def)
      from ih fr rs h1 show ?thesis
        by (cases s) auto
    next
      case True
      show ?thesis
      proof (cases "chunk_size_of line")
        case (Inl e)
        with less.prems unf Yield True have "s = Raise e" "r' = r1" by auto
        with fr rs chunk_size_of_error [OF Inl] show ?thesis by auto
      next
        case (Inr n)
        obtain g r2 where rd: "read_sized n r1 = (g, r2)"
          by (cases "read_sized n r1")
        note rf = read_sized_frame [OF rd]
        have h1: "headers_seen r2 = headers_seen r + 1"
          using hs True Inr rf by (simp add: valid_header_def headers_seen_def)
        from less.prems unf Yield True Inr rd
        have res: "(s, r') = (case g of Got p \<Rightarrow> (Yield p, r2) | Eof \<Rightarrow> (Raise RuntimeError, r2)
                      | Fails e \<Rightarrow> (Raise e, r2))"
          by simp
        show ?thesis
        proof (cases g)
          case (Got p)
          with res rf fr rs h1 show ?thesis by auto
        next
          case Eof
          with res rf fr rs show ?thesis by auto
        next
          case (Fails e)
          with res rf fr rs show ?thesis by auto
        qed
      qed
    qed
  qed
qed

lemma headers_seen_upd [simp]:
  "headers_seen (r\<lparr>opened := a\<rparr>) = headers_seen r"
  "headers_seen (r\<lparr>released := b\<rparr>) = headers_seen r"
  by (simp_all add: headers_seen_def)

lemma wrap_local: "e = ValueError \<or> e = IndexError \<or> e = RuntimeError \<Longrightarrow> wrap e = e"
  by (auto simp: wrap_def)

lemma event_stream_run_step:
  assumes r: "opened r = 1" "released r = 0" "late_reads r = 0" "raised r = []"
    "failure r = f" "headers_seen r = k"
    and run: "event_stream_run r = (s, g')"
  shows "case s of Yield x \<Rightarrow> running f (Suc k) g' | Stop \<Rightarrow> ended f k Done g'
         | Raise e \<Rightarrow> ended f k (Raised e) g'"
proof -
  obtain sl r' where lp: "event_stream_loop r = (sl, r')"
    by (cases "event_stream_loop r")
  note fr = event_stream_loop_frame [OF lp]
  show ?thesis
  proof (cases sl)
    case (Yield p)
    with run lp have "s = Yield p" "g' = Suspended r'"
      by (auto simp: event_stream_run_def)
    with fr r Yield show ?thesis by (simp add: running_def)
  next
    case Stop
    with run lp have "s = Stop" "g' = Finished (close r')"
      by (auto simp: event_stream_run_def)
    with fr r Stop show ?thesis by (simp add: ended_def close_def)
  next
    case (Raise e)
    with run lp have sg: "s = Raise (wrap e)" "g' = Finished (close r')"
      by (auto simp: event_stream_run_def)
    from fr Raise r have
      "(raised r' = [e] \<and> f = Some e) \<or>
       (raised r' = [] \<and> (e = ValueError \<or> e = IndexError \<or> e = RuntimeError))"
      by auto
    then show ?thesis
    proof
      assume "raised r' = [e] \<and> f = Some e"
      with sg fr r show ?thesis by (simp add: ended_def close_def)
    next
      assume a: "raised r' = [] \<and> (e = ValueError \<or> e = IndexError \<or> e = RuntimeError)"
      then have "wrap e = e" "local_error e" by (auto simp: wrap_local local_error_def)
      with a sg fr r show ?thesis by (simp add: ended_def close_def)
    qed
  qed
qed

lemma event_stream_next_step:
  assumes "unstarted f g \<and> k = 0 \<or> running f k g" and "event_stream_next g = (s, g')"
  shows "case s of Yield x \<Rightarrow> running f (Suc k) g' | Stop \<Rightarrow> ended f k Done g'
         | Raise e \<Rightarrow> ended f k (Raised e) g'"
  using assms(1)
proof
  assume "unstarted f g \<and> k = 0"
  then obtain r where g: "g = Unstarted r" and r: "opened r = 0" "released r = 0"
    "late_reads r = 0" "raised r = []" "failure r = f" "headers_seen r = 0" and k: "k = 0"
    by (auto simp: unstarted_def)
  from assms(2) g have "event_stream_run (r\<lparr>opened := opened r + 1\<rparr>) = (s, g')"
    by (simp add: command_def)
  from event_stream_run_step [OF _ _ _ _ _ _ this, of f k] r k show ?thesis by simp
next
  assume "running f k g"
  then obtain r where g: "g = Suspended r" and r: "opened r = 1" "released r = 0"
    "late_reads r = 0" "raised r = []" "failure r = f" "headers_seen r = k"
    by (auto simp: running_def)
  from assms(2) g have "event_stream_run r = (s, g')" by simp
  from event_stream_run_step [OF r this] show ?thesis .
qed

lemma event_stream_close_running:
  "running f k g \<Longrightarrow> ended f k Abandoned (event_stream_close g)"
  by (auto simp: running_def ended_def close_def)

lemma event_actions_next_step:
  assumes "unstarted f g \<and> k = 0 \<or> running f k g" and "event_actions_next g = (s, g')"
  shows "case s of Yield x \<Rightarrow> running f (Suc k) g' | Stop \<Rightarrow> ended f k Done g'
         | Raise e \<Rightarrow> ended f k (Raised e) g'"
proof -
  obtain s1 g1 where n1: "event_stream_next g = (s1, g1)"
    by (cases "event_stream_next g")
  note st = event_stream_next_step [OF assms(1) n1]
  show ?thesis
  proof (cases s1)
    case (Yield info)
    with st have run: "running f (Suc k) g1" by simp
    show ?thesis
    proof (cases "map_of (decode_payload info) ''Code''")
      case None
      with assms(2) n1 Yield have "s = Raise KeyError" "g' = event_stream_close g1"
        by (auto simp: event_actions_next_def)
      with run show ?thesis
        by (auto simp: running_def ended_def close_def local_error_def)
    next
      case (Some code)
      with assms(2) n1 Yield have "s = Yield (code, decode_payload info)" "g' = g1"
        by (auto simp: event_actions_next_def)
      with run show ?thesis by simp
    qed
  next
    case Stop
    with assms(2) n1 have "s = Stop" "g' = g1" by (auto simp: event_actions_next_def)
    with st Stop show ?thesis by simp
  next
    case (Raise e)
    with assms(2) n1 have "s = Raise e" "g' = g1" by (auto simp: event_actions_next_def)
    with st Raise show ?thesis by simp
  qed
qed

lemma consume_invariant:
  assumes step: "\<And>k g s g'. I k g \<Longrightarrow> nxt g = (s, g') \<Longrightarrow>
      (case s of Yield x \<Rightarrow> I (Suc k) g' | Stop \<Rightarrow> F k Done g' | Raise e \<Rightarrow> F k (Raised e) g')"
    and cl: "\<And>k g. I k g \<Longrightarrow> F k Abandoned (cls g)"
  shows "I k g \<Longrightarrow> consume nxt cls n g = (xs, out, gf) \<Longrightarrow> F (k + length xs) out gf"
proof (induction n arbitrary: k g xs out gf)
  case 0
  then show ?case using cl by auto
next
  case (Suc n)
  obtain s g' where nx: "nxt g = (s, g')" by (cases "nxt g")
  note st = step [OF Suc.prems(1) nx]
  show ?case
  proof (cases s)
    case (Yield x)
    obtain xs' out' gf' where c: "consume nxt cls n g' = (xs', out', gf')"
      by (cases "consume nxt cls n g'") auto
    with Suc.prems(2) nx Yield have e: "xs = x # xs'" "out = out'" "gf = gf'" by auto
    from st Yield have "I (Suc k) g'" by simp
    from Suc.IH [OF this c] e show ?thesis by simp
  next
    case Stop
    with Suc.prems(2) nx st show ?thesis by auto
  next
    case (Raise e)
    with Suc.prems(2) nx st show ?thesis by auto
  qed
qed

section \<open>Whole iterations\<close>

lemma unstarted_fresh: "unstarted f (Unstarted (fresh body f))"
  by (simp add: unstarted_def fresh_def headers_seen_def)

lemma consume_from_unstarted:
  assumes step: "\<And>k g s g'. unstarted f g \<and> k = 0 \<or> running f k g \<Longrightarrow> nxt g = (s, g') \<Longrightarrow>
      (case s of Yield x \<Rightarrow> running f (Suc k) g' | Stop \<Rightarrow> ended f k Done g'
       | Raise e \<Rightarrow> ended f k (Raised e) g')"
    and cl: "\<And>k g. running f k g \<Longrightarrow> ended f k Abandoned (cls g)"
    and u: "unstarted f g"
    and c: "consume nxt cls (Suc m) g = (xs, out, gf)"
  shows "ended f (length xs) out gf"
proof -
  obtain s g' where nx: "nxt g = (s, g')" by (cases "nxt g")
  have st: "case s of Yield x \<Rightarrow> running f (Suc 0) g' | Stop \<Rightarrow> ended f 0 Done g'
       | Raise e \<Rightarrow> ended f 0 (Raised e) g'"
    using step [of g 0 s g'] u nx by simp
  show ?thesis
  proof (cases s)
    case (Yield x)
    obtain xs' out' gf' where c': "consume nxt cls m g' = (xs', out', gf')"
      by (cases "consume nxt cls m g'") auto
    with c nx Yield have e: "xs = x # xs'" "out = out'" "gf = gf'" by auto
    from st Yield have run: "running f (Suc 0) g'" by simp
    have "ended f (Suc 0 + length xs') out' gf'"
    proof (rule consume_invariant [where I = "running f" and F = "ended f", OF _ _ run c'])
      fix k g s g'
      assume "running f k g" "nxt g = (s, g')"
      then show "case s of Yield x \<Rightarrow> running f (Suc k) g' | Stop \<Rightarrow> ended f k Done g'
         | Raise e \<Rightarrow> ended f k (Raised e) g'"
        using step [of g k s g'] by simp
    next
      fix k g
      assume "running f k g"
      then show "ended f k Abandoned (cls g)" by (rule cl)
    qed
    with e show ?thesis by simp
  next
    case Stop
    with c nx st show ?thesis by auto
  next
    case (Raise e)
    with c nx st show ?thesis by auto
  qed
qed

lemma stream_events_ended:
  "stream_events (Suc m) (fresh body f) = (xs, out, g) \<Longrightarrow> ended f (length xs) out g"
  unfolding stream_events_def
  by (rule consume_from_unstarted [where nxt = event_stream_next and cls = event_stream_close,
        OF _ _ unstarted_fresh])
     (auto intro: event_stream_next_step event_stream_close_running)

lemma action_events_ended:
  "action_events (Suc m) (fresh body f) = (ys, out, g) \<Longrightarrow> ended f (length ys) out g"
  unfolding action_events_def
  by (rule consume_from_unstarted [where nxt = event_actions_next and cls = event_actions_close,
        OF _ _ unstarted_fresh])
     (auto intro: event_actions_next_step event_stream_close_running simp: event_actions_close_def)

lemma events_zero:
  "stream_events 0 r = ([], Abandoned, Finished r)"
  "action_events 0 r = ([], Abandoned, Finished r)"
  by (simp_all add: stream_events_def action_events_def event_actions_close_def)

lemma finished_stops:
  "event_stream_next (Finished r) = (Stop, Finished r)"
  "event_actions_next (Finished r) = (Stop, Finished r)"
  by (simp_all add: event_actions_next_def)

section \<open>Lines and chunk headers\<close>

lemma has_crlf_append_crlf: "has_crlf (zs @ CR # LF # ys)"
  by (induction zs rule: has_crlf.induct) auto

lemma ends_crlf_has_crlf:
  assumes "drop (length xs - 2) xs = [CR, LF]"
  shows "has_crlf (xs @ ys)"
proof -
  define zs where "zs = take (length xs - 2) xs"
  have xs: "xs = zs @ [CR, LF]"
    unfolding zs_def using assms append_take_drop_id [of "length xs - 2" xs] by simp
  show ?thesis
    by (subst xs) (simp add: has_crlf_append_crlf)
qed

lemma note_read_live: "released r = 0 \<Longrightarrow> note_read r = r"
  by (simp add: note_read_def)

lemma resume_line:
  "\<not> has_crlf (line @ l) \<Longrightarrow> pending r = l @ [CR, LF] @ rest \<Longrightarrow> released r = 0 \<Longrightarrow>
   event_lines_resume line r =
     (Yield (strip (line @ l @ [CR, LF])),
      r\<lparr>pending := rest, seen := seen r @ [strip (line @ l @ [CR, LF])]\<rparr>)"
proof (induction l arbitrary: line r)
  case Nil
  let ?r2 = "r\<lparr>pending := LF # rest\<rparr>"
  have p: "pending r = CR # LF # rest" using Nil.prems(2) by simp
  have 1: "event_lines_resume line r = event_lines_resume (line @ [CR]) ?r2"
    by (simp add: event_lines_resume_Cons [OF p] note_read_live [OF Nil.prems(3)])
  have p2: "pending ?r2 = LF # rest" by simp
  have r2: "released ?r2 = 0" using Nil.prems(3) by simp
  have 2: "event_lines_resume (line @ [CR]) ?r2 =
     (Yield (strip (line @ [CR, LF])),
      ?r2\<lparr>pending := rest, seen := seen ?r2 @ [strip (line @ [CR, LF])]\<rparr>)"
    by (simp add: event_lines_resume_Cons [OF p2] note_read_live [OF r2])
  from 1 2 show ?case by simp
next
  case (Cons c l)
  let ?r2 = "r\<lparr>pending := l @ [CR, LF] @ rest\<rparr>"
  have p: "pending r = c # (l @ [CR, LF] @ rest)" using Cons.prems(2) by simp
  have no: "drop (length (line @ [c]) - 2) (line @ [c]) \<noteq> [CR, LF]"
  proof
    assume "drop (length (line @ [c]) - 2) (line @ [c]) = [CR, LF]"
    from ends_crlf_has_crlf [OF this, of l] Cons.prems(1) show False by simp
  qed
  have 1: "event_lines_resume line r = event_lines_resume (line @ [c]) ?r2"
    using no by (auto simp: event_lines_resume_Cons [OF p] note_read_live [OF Cons.prems(3)])
  have "event_lines_resume (line @ [c]) ?r2 =
     (Yield (strip ((line @ [c]) @ l @ [CR, LF])),
      ?r2\<lparr>pending := rest, seen := seen ?r2 @ [strip ((line @ [c]) @ l @ [CR, LF])]\<rparr>)"
    by (rule Cons.IH) (use Cons.prems in simp_all)
  with 1 show ?case by simp
qed

lemma resume_tail:
  "\<not> has_crlf (line @ t) \<Longrightarrow> pending r = t \<Longrightarrow> released r = 0 \<Longrightarrow> failure r = None \<Longrightarrow>
   event_lines_resume line r = (Stop, r\<lparr>pending := []\<rparr>)"
proof (induction t arbitrary: line r)
  case Nil
  then show ?case
    by (simp add: event_lines_resume_Nil note_read_live)
next
  case (Cons c t)
  let ?r2 = "r\<lparr>pending := t\<rparr>"
  have p: "pending r = c # t" using Cons.prems(2) by simp
  have no: "drop (length (line @ [c]) - 2) (line @ [c]) \<noteq> [CR, LF]"
  proof
    assume "drop (length (line @ [c]) - 2) (line @ [c]) = [CR, LF]"
    from ends_crlf_has_crlf [OF this, of t] Cons.prems(1) show False by simp
  qed
  have 1: "event_lines_resume line r = event_lines_resume (line @ [c]) ?r2"
    using no by (auto simp: event_lines_resume_Cons [OF p] note_read_live [OF Cons.prems(3)])
  have "event_lines_resume (line @ [c]) ?r2 = (Stop, ?r2\<lparr>pending := []\<rparr>)"
    by (rule Cons.IH) (use Cons.prems in simp_all)
  with 1 show ?case by simp
qed

lemma strip_snoc_space:
  assumes "isspace c"
  shows "strip (s @ [c]) = strip s"
proof (cases "\<forall>x \<in> set s. isspace x")
  case True
  then have a: "dropWhile isspace s = []" by simp
  from True assms have "\<forall>x \<in> set (s @ [c]). isspace x" by simp
  then have b: "dropWhile isspace (s @ [c]) = []" by (simp only: dropWhile_eq_Nil_conv)
  show ?thesis by (simp only: strip_def a b)
next
  case False
  then have "dropWhile isspace (s @ [c]) = dropWhile isspace s @ [c]"
    by (auto simp: dropWhile_append)
  then show ?thesis using assms by (simp add: strip_def)
qed

lemma strip_crlf: "strip (l @ [CR, LF]) = strip l"
proof -
  have "strip ((l @ [CR]) @ [LF]) = strip (l @ [CR])"
    by (rule strip_snoc_space) (simp add: isspace_def)
  also have "\<dots> = strip l"
    by (rule strip_snoc_space) (simp add: isspace_def)
  finally show ?thesis by simp
qed

lemma first_crlf:
  "has_crlf s \<Longrightarrow> \<exists>l s'. s = l @ CR # LF # s' \<and> \<not> has_crlf l"
proof (induction s rule: has_crlf.induct)
  case (1 a b cs)
  show ?case
  proof (cases "a = CR \<and> b = LF")
    case True
    then have "a # b # cs = [] @ CR # LF # cs \<and> \<not> has_crlf []" by simp
    then show ?thesis by blast
  next
    case False
    with "1.prems" have "has_crlf (b # cs)" by simp
    from "1.IH" [OF this] obtain l s' where e: "b # cs = l @ CR # LF # s'" and n: "\<not> has_crlf l"
      by blast
    have "\<not> has_crlf (a # l)"
    proof (cases l)
      case Nil
      then show ?thesis by simp
    next
      case (Cons x l')
      with e have "x = b" by simp
      with Cons n False show ?thesis by simp
    qed
    moreover from e have "a # b # cs = (a # l) @ CR # LF # s'" by simp
    ultimately show ?thesis by blast
  qed
qed simp_all

lemma crlf_decomposition:
  "\<exists>ls t. s = concat (map (\<lambda>l. l @ [CR, LF]) ls) @ t \<and> (\<forall>l \<in> set ls. \<not> has_crlf l) \<and>
     \<not> has_crlf t"
proof (induction "length s" arbitrary: s rule: less_induct)
  case less
  show ?case
  proof (cases "has_crlf s")
    case False
    then have "s = concat (map (\<lambda>l. l @ [CR, LF]) []) @ s \<and> (\<forall>l \<in> set []. \<not> has_crlf l) \<and>
       \<not> has_crlf s" by simp
    then show ?thesis by blast
  next
    case True
    from first_crlf [OF this] obtain l s' where e: "s = l @ CR # LF # s'" and n: "\<not> has_crlf l"
      by blast
    then have "length s' < length s" by simp
    from less.hyps [OF this] obtain ls t where
      d: "s' = concat (map (\<lambda>l. l @ [CR, LF]) ls) @ t" "\<forall>l \<in> set ls. \<not> has_crlf l" "\<not> has_crlf t"
      by blast
    have "s = concat (map (\<lambda>l. l @ [CR, LF]) (l # ls)) @ t"
      using e d(1) by simp
    moreover have "\<forall>x \<in> set (l # ls). \<not> has_crlf x" using n d(2) by simp
    ultimately show ?thesis using d(3) by blast
  qed
qed

lemma event_lines_consume:
  assumes "\<forall>l \<in> set ls. \<not> has_crlf l" and "\<not> has_crlf t" and "released r = 0"
    and "failure r = None" and "pending r = concat (map (\<lambda>l. l @ [CR, LF]) ls) @ t"
  shows "\<exists>rf. consume event_lines_next (\<lambda>r. r) n r =
           (take n (map strip ls), (if n \<le> length ls then Abandoned else Done), rf)"
  using assms
proof (induction ls arbitrary: n r)
  case Nil
  show ?case
  proof (cases n)
    case 0
    then show ?thesis by simp
  next
    case (Suc m)
    have "event_lines_next r = (Stop, r\<lparr>pending := []\<rparr>)"
      unfolding event_lines_next_def
      by (rule resume_tail) (use Nil.prems in simp_all)
    with Suc show ?thesis by simp
  qed
next
  case (Cons l ls)
  show ?case
  proof (cases n)
    case 0
    then show ?thesis by simp
  next
    case (Suc m)
    let ?rest = "concat (map (\<lambda>l. l @ [CR, LF]) ls) @ t"
    let ?r' = "r\<lparr>pending := ?rest, seen := seen r @ [strip ([] @ l @ [CR, LF])]\<rparr>"
    have nx: "event_lines_next r = (Yield (strip ([] @ l @ [CR, LF])), ?r')"
      unfolding event_lines_next_def
      by (rule resume_line) (use Cons.prems in simp_all)
    have "\<exists>rf. consume event_lines_next (\<lambda>r. r) m ?r' =
           (take m (map strip ls), (if m \<le> length ls then Abandoned else Done), rf)"
      by (rule Cons.IH) (use Cons.prems in simp_all)
    then obtain rf where "consume event_lines_next (\<lambda>r. r) m ?r' =
           (take m (map strip ls), (if m \<le> length ls then Abandoned else Done), rf)" ..
    with nx Suc show ?thesis by (simp add: strip_crlf)
  qed
qed

lemma lower_char_colon: "lower_char c = CHR '':'' \<Longrightarrow> c = CHR '':''"
proof (rule ccontr)
  assume l: "lower_char c = CHR '':''" and n: "c \<noteq> CHR '':''"
  define k where "k = (of_char c :: nat)"
  define P where "P \<longleftrightarrow> (65 \<le> k \<and> k \<le> 90) \<or> (192 \<le> k \<and> k \<le> 222 \<and> k \<noteq> 215)"
  have lc: "lower_char c = (if P then char_of (k + 32) else c)"
    unfolding lower_char_def Let_def k_def P_def ..
  have P
  proof (rule ccontr)
    assume "\<not> P"
    with lc have "lower_char c = c" by (simp only: if_False)
    with l n show False by (simp only:)
  qed
  with lc l have eq: "char_of (k + 32) = CHR '':''" by (simp only: if_True)
  have "(of_char (char_of (k + 32)) :: nat) = of_char (CHR '':'')"
    by (simp only: eq)
  then have m: "(k + 32) mod 256 = 58" by simp
  from \<open>P\<close> have "k + 32 < 256" unfolding P_def by linarith
  then have "(k + 32) mod 256 = k + 32" by (rule mod_less)
  with m have "k = 26" by linarith
  with \<open>P\<close> show False unfolding P_def by linarith
qed

lemma header_has_colon:
  assumes "chunk_header line"
  shows "CHR '':'' \<in> set line"
proof -
  have l15: "length ''content-length:'' = 15" by simp
  from assms have t: "take 15 (map lower_char line) = ''content-length:''"
    unfolding chunk_header_def startswith_def lower_def l15 .
  have "length (take 15 (map lower_char line)) = 15"
    by (simp only: t l15)
  then have len: "14 < length line" by simp
  have "take 15 (map lower_char line) ! 14 = CHR '':''"
    by (simp only: t) simp
  with len have "lower_char (line ! 14) = CHR '':''" by simp
  then have "line ! 14 = CHR '':''" by (rule lower_char_colon)
  with nth_mem [OF len] show ?thesis by simp
qed

lemma split_two: "sep \<in> set s \<Longrightarrow> \<exists>a f fs. split sep s = a # f # fs"
proof (induction s)
  case Nil
  then show ?case by simp
next
  case (Cons c cs)
  show ?case
  proof (cases "c = sep")
    case True
    then show ?thesis using split_nonempty [of sep cs]
      by (cases "split sep cs") auto
  next
    case False
    with Cons.prems have "sep \<in> set cs" by simp
    from Cons.IH [OF this] False show ?thesis by auto
  qed
qed

section \<open>Bodies made of chunks\<close>

lemma skip_noise:
  assumes "noise_line l" and "pending r = l @ [CR, LF] @ rest" and "released r = 0"
  shows "event_stream_loop r = event_stream_loop (r\<lparr>pending := rest, seen := seen r @ [strip l]\<rparr>)"
proof -
  have nx: "event_lines_next r =
      (Yield (strip ([] @ l @ [CR, LF])), r\<lparr>pending := rest, seen := seen r @ [strip ([] @ l @ [CR, LF])]\<rparr>)"
    unfolding event_lines_next_def
    by (rule resume_line) (use assms in \<open>simp_all add: noise_line_def\<close>)
  show ?thesis
    using assms(1) by (subst event_stream_loop_unfold [OF nx]) (simp add: strip_crlf noise_line_def)
qed

lemma skip_noise_lines:
  assumes "list_all noise_line ns" and "pending r = lines_text ns @ rest" and "released r = 0"
  shows "\<exists>sn. event_stream_loop r = event_stream_loop (r\<lparr>pending := rest, seen := sn\<rparr>)"
  using assms
proof (induction ns arbitrary: r)
  case Nil
  then have "r\<lparr>pending := rest, seen := seen r\<rparr> = r" by (simp add: lines_text_def)
  then show ?case by metis
next
  case (Cons l ns)
  let ?r1 = "r\<lparr>pending := lines_text ns @ rest, seen := seen r @ [strip l]\<rparr>"
  have 1: "event_stream_loop r = event_stream_loop ?r1"
    by (rule skip_noise) (use Cons.prems in \<open>simp_all add: lines_text_def\<close>)
  have "\<exists>sn. event_stream_loop ?r1 = event_stream_loop (?r1\<lparr>pending := rest, seen := sn\<rparr>)"
    by (rule Cons.IH) (use Cons.prems in simp_all)
  with 1 show ?case by auto
qed

lemma loop_chunk:
  assumes "well_formed_chunk (ns, h, p)" and "pending r = render (ns, h, p) @ rest"
    and "released r = 0"
  shows "\<exists>sn. event_stream_loop r = (Yield p, r\<lparr>pending := rest, seen := sn\<rparr>)"
proof -
  from assms have "\<exists>sn. event_stream_loop r =
      event_stream_loop (r\<lparr>pending := h @ [CR, LF] @ p @ rest, seen := sn\<rparr>)"
    by (intro skip_noise_lines [of ns]) simp_all
  then obtain sn where 1: "event_stream_loop r =
      event_stream_loop (r\<lparr>pending := h @ [CR, LF] @ p @ rest, seen := sn\<rparr>)" ..
  let ?r0 = "r\<lparr>pending := h @ [CR, LF] @ p @ rest, seen := sn\<rparr>"
  let ?r1 = "?r0\<lparr>pending := p @ rest, seen := seen ?r0 @ [strip ([] @ h @ [CR, LF])]\<rparr>"
  have nx: "event_lines_next ?r0 = (Yield (strip ([] @ h @ [CR, LF])), ?r1)"
    unfolding event_lines_next_def
    by (rule resume_line) (use assms in simp_all)
  have rd: "read_sized (int (length p)) ?r1 = (Got p, ?r1\<lparr>pending := rest\<rparr>)"
    using assms by (simp add: read_sized_def note_read_def)
  have "event_stream_loop ?r0 = (Yield p, ?r1\<lparr>pending := rest\<rparr>)"
    using assms(1) rd by (subst event_stream_loop_unfold [OF nx]) (simp add: strip_crlf)
  with 1 have "event_stream_loop r = (Yield p, r\<lparr>pending := rest, seen := sn @ [strip h]\<rparr>)"
    by (simp add: strip_crlf)
  then show ?thesis ..
qed

lemma loop_trailer:
  assumes "list_all noise_line ns" and "\<not> has_crlf t" and "pending r = lines_text ns @ t"
    and "released r = 0" and "failure r = None"
  shows "\<exists>sn. event_stream_loop r = (Stop, r\<lparr>pending := [], seen := sn\<rparr>)"
proof -
  from assms have "\<exists>sn. event_stream_loop r = event_stream_loop (r\<lparr>pending := t, seen := sn\<rparr>)"
    by (intro skip_noise_lines [of ns]) simp_all
  then obtain sn where 1: "event_stream_loop r = event_stream_loop (r\<lparr>pending := t, seen := sn\<rparr>)" ..
  let ?r0 = "r\<lparr>pending := t, seen := sn\<rparr>"
  have nx: "event_lines_next ?r0 = (Stop, ?r0\<lparr>pending := []\<rparr>)"
    unfolding event_lines_next_def
    by (rule resume_tail) (use assms in simp_all)
  have "event_stream_loop ?r0 = (Stop, ?r0\<lparr>pending := []\<rparr>)"
    by (subst event_stream_loop_unfold [OF nx]) simp
  with 1 have "event_stream_loop r = (Stop, r\<lparr>pending := [], seen := sn\<rparr>)"
    by simp
  then show ?thesis ..
qed

lemma consume_chunks:
  assumes "list_all well_formed_chunk cs" and "list_all noise_line ns" and "\<not> has_crlf t"
    and "pending r = concat (map render cs) @ lines_text ns @ t"
    and "released r = 0" and "failure r = None"
  shows "\<exists>gf. consume event_stream_next event_stream_close n (Suspended r) =
           (take n (map chunk_payload cs), (if n \<le> length cs then Abandoned else Done), gf)"
  using assms
proof (induction cs arbitrary: n r)
  case Nil
  show ?case
  proof (cases n)
    case 0
    then show ?thesis by simp
  next
    case (Suc m)
    from loop_trailer [OF Nil.prems(2,3) _ Nil.prems(5,6)] Nil.prems(4)
    obtain sn where "event_stream_loop r = (Stop, r\<lparr>pending := [], seen := sn\<rparr>)" by auto
    with Suc show ?thesis by (simp add: event_stream_run_def)
  qed
next
  case (Cons c cs)
  obtain before h p where c: "c = (before, h, p)" by (cases c)
  show ?case
  proof (cases n)
    case 0
    then show ?thesis by simp
  next
    case (Suc m)
    let ?rest = "concat (map render cs) @ lines_text ns @ t"
    have "\<exists>sn. event_stream_loop r = (Yield p, r\<lparr>pending := ?rest, seen := sn\<rparr>)"
      by (rule loop_chunk [of before h]) (use Cons.prems c in simp_all)
    then obtain sn where lp: "event_stream_loop r = (Yield p, r\<lparr>pending := ?rest, seen := sn\<rparr>)" ..
    let ?r' = "r\<lparr>pending := ?rest, seen := sn\<rparr>"
    have "\<exists>gf. consume event_stream_next event_stream_close m (Suspended ?r') =
           (take m (map chunk_payload cs), (if m \<le> length cs then Abandoned else Done), gf)"
      by (rule Cons.IH) (use Cons.prems in simp_all)
    then obtain gf where "consume event_stream_next event_stream_close m (Suspended ?r') =
           (take m (map chunk_payload cs), (if m \<le> length cs then Abandoned else Done), gf)" ..
    with lp Suc c show ?thesis by (simp add: event_stream_run_def)
  qed
qed

lemma consume_actions:
  assumes "consume event_stream_next event_stream_close n g = (xs, out, gf)"
    and "list_all (\<lambda>x. map_of (decode_payload x) ''Code'' \<noteq> None) xs"
  shows "consume event_actions_next event_actions_close n g =
     (map (\<lambda>x. (the (map_of (decode_payload x) ''Code''), decode_payload x)) xs, out, gf)"
  using assms
proof (induction n arbitrary: g xs out gf)
  case 0
  then show ?case by (auto simp: event_actions_close_def)
next
  case (Suc n)
  obtain s g' where nx: "event_stream_next g = (s, g')" by (cases "event_stream_next g")
  show ?case
  proof (cases s)
    case (Yield x)
    obtain xs' out' gf' where c: "consume event_stream_next event_stream_close n g' = (xs', out', gf')"
      by (cases "consume event_stream_next event_stream_close n g'") auto
    with Suc.prems(1) nx Yield have e: "xs = x # xs'" "out = out'" "gf = gf'" by auto
    with Suc.prems(2) obtain code where code: "map_of (decode_payload x) ''Code'' = Some code"
      and rest: "list_all (\<lambda>x. map_of (decode_payload x) ''Code'' \<noteq> None) xs'"
      by auto
    from Suc.IH [OF c rest] nx Yield code e show ?thesis
      by (simp add: event_actions_next_def)
  next
    case Stop
    with Suc.prems(1) nx show ?thesis by (auto simp: event_actions_next_def)
  next
    case (Raise e)
    with Suc.prems(1) nx show ?thesis by (auto simp: event_actions_next_def)
  qed
qed

section \<open>Payload decoding: the claims\<close>

text \<open>
  C2. The payload text \<^verbatim>\<open>Code=VideoMotion;action=Start;index=0;data="Object[0]" : "1"\<close>
  decodes to the dict with \<open>Code\<close>, \<open>action\<close> and \<open>index\<close> as strings and \<open>data\<close> as the
  nested dict \<open>{"Object[0]": "1"}\<close>; the sub-parser of \<open>data\<close> turns
  \<^verbatim>\<open> "key one" : bareValue \<close> into \<open>{"key one": "bareValue"}\<close>; and whenever
  \<open>event_stream\<close> yields that payload text, \<open>event_actions\<close> yields the pair of
  \<open>"VideoMotion"\<close> and the dict.
\<close>

theorem video_motion_payload_decoded:
  \<open>decode_payload ''Code=VideoMotion;action=Start;index=0;data="Object[0]" : "1"'' =
     [(''Code'', Str ''VideoMotion''), (''action'', Str ''Start''), (''index'', Str ''0''),
      (''data'', Dict [(''Object[0]'', ''1'')])]
   \<and> parse_data '' "key one" : bareValue '' = [(''key one'', ''bareValue'')]
   \<and> (\<forall>g g'.
        event_stream_next g =
          (Yield ''Code=VideoMotion;action=Start;index=0;data="Object[0]" : "1"'', g') \<longrightarrow>
        event_actions_next g =
          (Yield (Str ''VideoMotion'',
             [(''Code'', Str ''VideoMotion''), (''action'', Str ''Start''),
              (''index'', Str ''0''), (''data'', Dict [(''Object[0]'', ''1'')])]), g'))\<close>
proof -
  have d: \<open>decode_payload ''Code=VideoMotion;action=Start;index=0;data="Object[0]" : "1"'' =
     [(''Code'', Str ''VideoMotion''), (''action'', Str ''Start''), (''index'', Str ''0''),
      (''data'', Dict [(''Object[0]'', ''1'')])]\<close>
    by code_simp
  have k: \<open>parse_data '' "key one" : bareValue '' = [(''key one'', ''bareValue'')]\<close>
    by code_simp
  show ?thesis
    by (simp add: d k event_actions_next_def)
qed

theorem video_motion_payload_decoded_witness:
  \<open>fst (event_actions_next (Unstarted (fresh
      (''Content-Length: 60'' @ [CR, LF] @
       ''Code=VideoMotion;action=Start;index=0;data="Object[0]" : "1"'') None))) =
     Yield (Str ''VideoMotion'',
       [(''Code'', Str ''VideoMotion''), (''action'', Str ''Start''),
        (''index'', Str ''0''), (''data'', Dict [(''Object[0]'', ''1'')])])\<close>
proof -
  have \<open>fst (event_stream_next (Unstarted (fresh
      (''Content-Length: 60'' @ [CR, LF] @
       ''Code=VideoMotion;action=Start;index=0;data="Object[0]" : "1"'') None))) =
     Yield ''Code=VideoMotion;action=Start;index=0;data="Object[0]" : "1"''\<close>
    by code_simp
  then obtain g' where \<open>event_stream_next (Unstarted (fresh
      (''Content-Length: 60'' @ [CR, LF] @
       ''Code=VideoMotion;action=Start;index=0;data="Object[0]" : "1"'') None)) =
     (Yield ''Code=VideoMotion;action=Start;index=0;data="Object[0]" : "1"'', g')\<close>
    by (metis prod.collapse)
  with video_motion_payload_decoded show ?thesis
    by simp
qed



text \<open>
  C10. Every entry of the nested dict of \<open>data\<close> is a pair of matched tokens from which
  every double quote was removed, in the key and in the value alike: neither holds a
  double quote any more, also not one that was escaped inside a quoted token.
\<close>

theorem data_quotes_removed:
  "(k, x) \<in> set (parse_data v) \<Longrightarrow>
     DQ \<notin> set k \<and> DQ \<notin> set x \<and>
     (\<exists>a b. (a, b) \<in> set (findall REG_PARSE_MALFORMED_JSON v) \<and>
        k = filter (\<lambda>c. c \<noteq> DQ) a \<and> x = filter (\<lambda>c. c \<noteq> DQ) b)"
proof -
  assume "(k, x) \<in> set (parse_data v)"
  with set_foldl_update [of "replace DQ []" "\<lambda>a b. replace DQ [] b" "[]"
      "findall REG_PARSE_MALFORMED_JSON v"]
  obtain a b where ab: "(a, b) \<in> set (findall REG_PARSE_MALFORMED_JSON v)"
    and k: "k = replace DQ [] a" and x: "x = replace DQ [] b"
    unfolding parse_data_def by auto
  then show ?thesis by (auto simp: replace_empty)
qed

theorem data_quotes_removed_witness:
  \<open>parse_data (''"a'' @ [BS] @ ''"b" : "c'' @ [BS] @ ''"d"'') =
      [(''a'' @ [BS] @ ''b'', ''c'' @ [BS] @ ''d'')]
   \<and> findall REG_PARSE_MALFORMED_JSON (''"a'' @ [BS] @ ''"b" : "c'' @ [BS] @ ''"d"'') =
      [(''"a'' @ [BS] @ ''"b"'', ''"c'' @ [BS] @ ''"d"'')]
   \<and> DQ \<notin> set (''a'' @ [BS] @ ''b'') \<and> DQ \<notin> set (''c'' @ [BS] @ ''d'')\<close>
proof -
  have p: \<open>parse_data (''"a'' @ [BS] @ ''"b" : "c'' @ [BS] @ ''"d"'') =
      [(''a'' @ [BS] @ ''b'', ''c'' @ [BS] @ ''d'')]\<close>
    by code_simp
  have f: \<open>findall REG_PARSE_MALFORMED_JSON (''"a'' @ [BS] @ ''"b" : "c'' @ [BS] @ ''"d"'') =
      [(''"a'' @ [BS] @ ''"b"'', ''"c'' @ [BS] @ ''"d"'')]\<close>
    by code_simp
  from data_quotes_removed [of "''a'' @ [BS] @ ''b''" "''c'' @ [BS] @ ''d''"
      \<open>''"a'' @ [BS] @ ''"b" : "c'' @ [BS] @ ''"d"''\<close>] p f
  show ?thesis by simp
qed

section \<open>The event stream: the claims\<close>



text \<open>
  C5. When the payload text that \<open>event_stream\<close> yields next decodes to a dict without
  the key \<open>Code\<close>, \<open>event_actions\<close> raises \<open>KeyError\<close> instead of a record: the consumer
  receives no record from there on, only the exception, and the generator is finished
  (a further \<open>next\<close> stops).
\<close>

theorem missing_code_is_key_error:
  assumes "event_stream_next g = (Yield event_info, g')"
    and "map_of (decode_payload event_info) ''Code'' = None"
  shows "event_actions_next g = (Raise KeyError, event_stream_close g') \<and>
         consume event_actions_next event_actions_close (Suc n) g =
           ([], Raised KeyError, event_stream_close g') \<and>
         event_actions_next (event_stream_close g') = (Stop, event_stream_close g')"
proof -
  have a: "event_actions_next g = (Raise KeyError, event_stream_close g')"
    using assms by (simp add: event_actions_next_def)
  have b: "event_actions_next (event_stream_close g') = (Stop, event_stream_close g')"
    by (cases g') (simp_all add: finished_stops)
  from a b show ?thesis by simp
qed

theorem missing_code_is_key_error_witness:
  "event_actions_next (Unstarted (fresh (''Content-Length: 12'' @ [CR, LF] @ ''action=Start'' @ [CR, LF] @
      ''Content-Length: 6'' @ [CR, LF] @ ''Code=B'') None)) =
     (Raise KeyError,
      Finished \<lparr>pending = [CR, LF] @ ''Content-Length: 6'' @ [CR, LF] @ ''Code=B'',
        failure = None, opened = 1, released = 1, late_reads = 0, raised = [],
        seen = [''Content-Length: 12'']\<rparr>)
   \<and> fst (snd (action_events 3 (fresh (''Content-Length: 12'' @ [CR, LF] @ ''action=Start'' @ [CR, LF] @
      ''Content-Length: 6'' @ [CR, LF] @ ''Code=B'') None))) = Raised KeyError
   \<and> fst (action_events 3 (fresh (''Content-Length: 12'' @ [CR, LF] @ ''action=Start'' @ [CR, LF] @
      ''Content-Length: 6'' @ [CR, LF] @ ''Code=B'') None)) = []"
proof -
  let ?g' = "Suspended \<lparr>pending = [CR, LF] @ ''Content-Length: 6'' @ [CR, LF] @ ''Code=B'',
        failure = None, opened = 1, released = 0, late_reads = 0, raised = [],
        seen = [''Content-Length: 12'']\<rparr>"
  have st: "event_stream_next (Unstarted (fresh (''Content-Length: 12'' @ [CR, LF] @ ''action=Start'' @ [CR, LF] @
      ''Content-Length: 6'' @ [CR, LF] @ ''Code=B'') None)) = (Yield ''action=Start'', ?g')"
    by code_simp
  have nc: "map_of (decode_payload ''action=Start'') ''Code'' = None"
    by code_simp
  from missing_code_is_key_error [OF st nc, of 2] show ?thesis
    by (simp add: action_events_def close_def eval_nat_numeral)
qed

text \<open>
  C7. Whenever the transport raised an exception \<open>e\<close> of the kinds \<open>RequestException\<close> or
  \<open>HTTPError\<close> during an iteration of \<open>event_stream\<close> (or of \<open>event_actions\<close> over it),
  the iteration ended with \<open>CommError(e)\<close>, raised from \<open>e\<close>; it is the only exception
  the transport raised, and the finished generator gives no further item.
\<close>

theorem transport_error_becomes_comm_error:
  assumes "(out, g) = snd (stream_events n (fresh body f)) \<or>
           (out, g) = snd (action_events n (fresh body f))"
    and "e \<in> set (raised (session_of g))" and "transport_error e"
  shows "out = Raised (CommError e) \<and> raised (session_of g) = [e] \<and> f = Some e \<and>
         event_stream_next g = (Stop, g) \<and> event_actions_next g = (Stop, g)"
proof (cases n)
  case 0
  with assms(1,2) show ?thesis
    by (auto simp: events_zero fresh_def)
next
  case (Suc m)
  from assms(1) obtain k where "ended f k out g"
  proof
    assume a: "(out, g) = snd (stream_events n (fresh body f))"
    obtain xs where "stream_events n (fresh body f) = (xs, out, g)"
      using a by (cases "stream_events n (fresh body f)") auto
    with Suc have "ended f (length xs) out g" by (auto dest: stream_events_ended)
    then show ?thesis by (rule that)
  next
    assume a: "(out, g) = snd (action_events n (fresh body f))"
    obtain ys where "action_events n (fresh body f) = (ys, out, g)"
      using a by (cases "action_events n (fresh body f)") auto
    with Suc have "ended f (length ys) out g" by (auto dest: action_events_ended)
    then show ?thesis by (rule that)
  qed
  then obtain r where g: "g = Finished r"
    and cs: "case out of
           Raised x \<Rightarrow>
             (raised r = [] \<and> local_error x) \<or>
             (\<exists>e0. raised r = [e0] \<and> f = Some e0 \<and> x = wrap e0)
         | _ \<Rightarrow> raised r = [] \<and> headers_seen r = k"
    by (auto simp: ended_def)
  from assms(2) g have mem: "e \<in> set (raised r)" by simp
  show ?thesis
  proof (cases out)
    case Done
    with cs mem show ?thesis by simp
  next
    case Abandoned
    with cs mem show ?thesis by simp
  next
    case (Raised x)
    with cs mem have "raised r = [e] \<and> f = Some e \<and> x = wrap e" by auto
    with Raised g assms(3) show ?thesis
      by (simp add: wrap_def finished_stops)
  qed
qed

theorem transport_error_becomes_comm_error_witness:
  "stream_events 3 (fresh (''Content-Length: 6'' @ [CR, LF] @ ''Code=A'' @ [CR, LF] @ ''Content-Le'') (Some (HTTPError ''reset''))) =
     ([''Code=A''], Raised (CommError (HTTPError ''reset'')),
      Finished \<lparr>pending = [], failure = Some (HTTPError ''reset''), opened = 1, released = 1,
        late_reads = 0, raised = [HTTPError ''reset''], seen = [''Content-Length: 6'', []]\<rparr>)
   \<and> event_stream_next
        (Finished \<lparr>pending = [], failure = Some (HTTPError ''reset''), opened = 1, released = 1,
          late_reads = 0, raised = [HTTPError ''reset''], seen = [''Content-Length: 6'', []]\<rparr>) =
       (Stop,
        Finished \<lparr>pending = [], failure = Some (HTTPError ''reset''), opened = 1, released = 1,
          late_reads = 0, raised = [HTTPError ''reset''], seen = [''Content-Length: 6'', []]\<rparr>)"
proof -
  have ev: "stream_events 3 (fresh (''Content-Length: 6'' @ [CR, LF] @ ''Code=A'' @ [CR, LF] @ ''Content-Le'') (Some (HTTPError ''reset''))) =
     ([''Code=A''], Raised (CommError (HTTPError ''reset'')),
      Finished \<lparr>pending = [], failure = Some (HTTPError ''reset''), opened = 1, released = 1,
        late_reads = 0, raised = [HTTPError ''reset''], seen = [''Content-Length: 6'', []]\<rparr>)"
    by code_simp
  from transport_error_becomes_comm_error
    [of "Raised (CommError (HTTPError ''reset''))" _ 3 _ "Some (HTTPError ''reset'')"
        "HTTPError ''reset''", OF disjI1] ev
  show ?thesis by simp
qed



text \<open>
  C3. For a body that consists of lines, each without a CR LF inside and each ended by
  CR LF, and of a rest without CR LF, the frame reader emits one string per line, at
  the terminator and nowhere else: the buffered line with the terminator and the
  surrounding white space stripped. Each line starts from an empty buffer. When the
  body is used up the sequence ends without an exception, and the rest is never
  emitted. Every character sequence is such a body (lemma \<open>crlf_decomposition\<close>). A
  consumer that closes the generator after \<open>n\<close> lines has received the first \<open>n\<close>.
\<close>

theorem frame_reader_lines:
  assumes "\<forall>l \<in> set ls. \<not> has_crlf l" and "\<not> has_crlf t"
  shows "fst (consume event_lines_next (\<lambda>r. r) n
               (fresh (concat (map (\<lambda>l. l @ [CR, LF]) ls) @ t) None)) = take n (map strip ls)
       \<and> fst (snd (consume event_lines_next (\<lambda>r. r) n
               (fresh (concat (map (\<lambda>l. l @ [CR, LF]) ls) @ t) None))) =
           (if n \<le> length ls then Abandoned else Done)"
proof -
  from event_lines_consume [OF assms, of "fresh (concat (map (\<lambda>l. l @ [CR, LF]) ls) @ t) None" n]
  show ?thesis by (auto simp: fresh_def)
qed

theorem frame_reader_lines_witness:
  "fst (consume event_lines_next (\<lambda>r. r) 5
      (fresh (''ab '' @ [CR, LF] @ '' c'' @ [CR, CR, LF, LF] @ ''rest'') None)) = [''ab'', ''c'']
   \<and> fst (snd (consume event_lines_next (\<lambda>r. r) 5
      (fresh (''ab '' @ [CR, LF] @ '' c'' @ [CR, CR, LF, LF] @ ''rest'') None))) = Done"
proof -
  have h: "\<forall>l \<in> set [''ab '', '' c'' @ [CR]]. \<not> has_crlf l" "\<not> has_crlf (LF # ''rest'')"
    by simp_all
  have s: "strip ''ab '' = ''ab''" "strip [CHR '' '', CHR ''c'', CR] = ''c''"
    by code_simp+
  from frame_reader_lines [OF h, of 5] show ?thesis
    by (simp add: s)
qed

text \<open>
  C4. When the next line is a chunk header that announces the length of \<open>p\<close>, a
  non-empty text of any characters (line breaks included), and \<open>p\<close> follows the
  header's terminator, the generator yields exactly \<open>p\<close> and leaves the body at the
  character behind \<open>p\<close>, whatever follows; the frame reader has handed out the header
  line only.
\<close>

theorem chunk_read_by_count:
  assumes "\<not> has_crlf h" and "chunk_header (strip h)"
    and "chunk_size_of (strip h) = Inr (int (length p))" and "p \<noteq> []"
    and "pending r = h @ [CR, LF] @ p @ rest" and "released r = 0"
  shows "event_stream_next (Suspended r) =
           (Yield p, Suspended (r\<lparr>pending := rest, seen := seen r @ [strip h]\<rparr>))"
proof -
  let ?r1 = "r\<lparr>pending := p @ rest, seen := seen r @ [strip ([] @ h @ [CR, LF])]\<rparr>"
  have nx: "event_lines_next r = (Yield (strip ([] @ h @ [CR, LF])), ?r1)"
    unfolding event_lines_next_def
    by (rule resume_line) (use assms in simp_all)
  have rd: "read_sized (int (length p)) ?r1 = (Got p, ?r1\<lparr>pending := rest\<rparr>)"
    using assms(4,6) by (simp add: read_sized_def note_read_def)
  have "event_stream_loop r = (Yield p, ?r1\<lparr>pending := rest\<rparr>)"
    using assms(2,3) rd by (simp add: event_stream_loop_unfold [OF nx] strip_crlf)
  then show ?thesis by (simp add: event_stream_run_def strip_crlf)
qed

theorem chunk_read_by_count_witness:
  "event_stream_next (Suspended (fresh
      (''Content-Length: 5'' @ [CR, LF] @ ''a'' @ [CR, LF] @ ''bc'' @ [CR, LF] @ ''--b'' @ [CR, LF]) None)) =
     (Yield (''a'' @ [CR, LF] @ ''bc''),
      Suspended ((fresh
        (''Content-Length: 5'' @ [CR, LF] @ ''a'' @ [CR, LF] @ ''bc'' @ [CR, LF] @ ''--b'' @ [CR, LF]) None)
        \<lparr>pending := [CR, LF] @ ''--b'' @ [CR, LF], seen := [''Content-Length: 5'']\<rparr>))"
proof -
  have a: "\<not> has_crlf ''Content-Length: 5''" by simp
  have b: "chunk_header (strip ''Content-Length: 5'')" by code_simp
  have c: "chunk_size_of (strip ''Content-Length: 5'') = Inr (int (length (''a'' @ [CR, LF] @ ''bc'')))"
    by code_simp
  have s: "strip ''Content-Length: 5'' = ''Content-Length: 5''" by code_simp
  from chunk_read_by_count [OF a b c, of
      "fresh (''Content-Length: 5'' @ [CR, LF] @ ''a'' @ [CR, LF] @ ''bc'' @ [CR, LF] @ ''--b'' @ [CR, LF]) None"
      "[CR, LF] @ ''--b'' @ [CR, LF]"]
  show ?thesis by (simp add: fresh_def s)
qed

text \<open>
  C6, as amended. When the frame reader hands out a line that starts with
  \<open>content-length:\<close> in any case and \<open>int\<close> does not accept \<open>line.split(":")[1]\<close>, the
  text between the first colon and the next one or the end of the line, the loop
  raises \<open>ValueError\<close>: the generator yields nothing for the line, the exception
  reaches the caller as it is, and the response is closed.
\<close>

theorem malformed_count_is_value_error:
  assumes "event_lines_next r = (Yield line, r')" and "chunk_header line"
    and "py_int (split (CHR '':'') line ! 1) = None"
  shows "event_stream_loop r = (Raise ValueError, r') \<and>
         event_stream_next (Suspended r) = (Raise ValueError, Finished (close r'))"
proof -
  from split_two [OF header_has_colon [OF assms(2)]] obtain a f fs
    where sp: "split (CHR '':'') line = a # f # fs" by blast
  with assms(3) have "py_int f = None" by simp
  with sp have "chunk_size_of line = Inl ValueError" by (simp add: chunk_size_of_def)
  with assms(2) have lp: "event_stream_loop r = (Raise ValueError, r')"
    by (simp add: event_stream_loop_unfold [OF assms(1)])
  then show ?thesis by (simp add: event_stream_run_def wrap_def)
qed

theorem malformed_count_is_value_error_witness:
  "event_stream_next (Suspended (fresh (''Content-Length: five'' @ [CR, LF] @ ''hello'') None)) =
     (Raise ValueError,
      Finished \<lparr>pending = ''hello'', failure = None, opened = 0, released = 1, late_reads = 0,
        raised = [], seen = [''Content-Length: five'']\<rparr>)"
proof -
  have a: "event_lines_next (fresh (''Content-Length: five'' @ [CR, LF] @ ''hello'') None) =
     (Yield ''Content-Length: five'',
      \<lparr>pending = ''hello'', failure = None, opened = 0, released = 0, late_reads = 0,
        raised = [], seen = [''Content-Length: five'']\<rparr>)"
    by code_simp
  have b: "chunk_header ''Content-Length: five''" by code_simp
  have c: "py_int (split (CHR '':'') ''Content-Length: five'' ! 1) = None" by code_simp
  from malformed_count_is_value_error [OF a b c] show ?thesis
    by (simp add: close_def)
qed

text \<open>
  C6 as stated fails where a second colon follows the count: the text behind
  the colon of \<open>content-length: 5:x\<close> is no integer, yet the loop reads five characters
  and yields them.
\<close>

theorem malformed_count_counterexample:
  "chunk_header ''content-length: 5:x''
   \<and> py_int (drop (length ''content-length:'') ''content-length: 5:x'') = None
   \<and> stream_events 2 (fresh (''content-length: 5:x'' @ [CR, LF] @ ''hello'') None) =
       ([''hello''], Done,
        Finished \<lparr>pending = [], failure = None, opened = 1, released = 1, late_reads = 0,
          raised = [], seen = [''content-length: 5:x'']\<rparr>)"
  by code_simp

section \<open>Well-formed streams\<close>

text \<open>
  For a body that consists of well-formed chunks, followed by lines that are no chunk
  headers and by an unterminated rest, \<open>event_stream\<close> yields the payloads of the
  chunks, in order and nothing else, and ends without an exception; a consumer that
  closes the generator after \<open>n\<close> items has received the first \<open>n\<close> payloads.
\<close>

theorem well_formed_stream:
  assumes "list_all well_formed_chunk cs" and "list_all noise_line ns" and "\<not> has_crlf t"
  shows "fst (stream_events n (fresh (concat (map render cs) @ lines_text ns @ t) None)) =
           take n (map chunk_payload cs)
       \<and> fst (snd (stream_events n (fresh (concat (map render cs) @ lines_text ns @ t) None))) =
           (if n \<le> length cs then Abandoned else Done)"
proof (cases n)
  case 0
  then show ?thesis by (simp add: events_zero)
next
  case (Suc m)
  let ?r = "fresh (concat (map render cs) @ lines_text ns @ t) None"
  have "consume event_stream_next event_stream_close n (Unstarted ?r) =
        consume event_stream_next event_stream_close n (Suspended (?r\<lparr>opened := opened ?r + 1\<rparr>))"
    using Suc by (simp add: command_def)
  moreover have "\<exists>gf. consume event_stream_next event_stream_close n
            (Suspended (?r\<lparr>opened := opened ?r + 1\<rparr>)) =
           (take n (map chunk_payload cs), (if n \<le> length cs then Abandoned else Done), gf)"
    by (rule consume_chunks [OF assms]) (simp_all add: fresh_def)
  ultimately show ?thesis by (auto simp: stream_events_def)
qed

theorem well_formed_stream_witness:
  "fst (stream_events 3 (fresh
      (''--b'' @ [CR, LF] @ ''Content-Length: 6'' @ [CR, LF] @ ''Code=A'' @
       [CR, LF] @ ''content-length:8'' @ [CR, LF] @ ''Code=B'' @ [CR, LF] @
       [CR, LF] @ ''--b'' @ [CR, LF] @ ''Content-Le'') None)) = [''Code=A'', ''Code=B'' @ [CR, LF]]
   \<and> fst (snd (stream_events 3 (fresh
      (''--b'' @ [CR, LF] @ ''Content-Length: 6'' @ [CR, LF] @ ''Code=A'' @
       [CR, LF] @ ''content-length:8'' @ [CR, LF] @ ''Code=B'' @ [CR, LF] @
       [CR, LF] @ ''--b'' @ [CR, LF] @ ''Content-Le'') None))) = Done"
proof -
  have a: "list_all well_formed_chunk
      [([''--b''], ''Content-Length: 6'', ''Code=A''),
       ([[]], ''content-length:8'', ''Code=B'' @ [CR, LF])]"
    by code_simp
  have b: "list_all noise_line [[], ''--b'']"
    by code_simp
  have c: "\<not> has_crlf ''Content-Le''" by simp
  from well_formed_stream [OF a b c, of 3] show ?thesis
    by (simp add: lines_text_def)
qed

text \<open>
  When every payload text that an iteration of \<open>event_stream\<close> yields decodes to a dict
  with the key \<open>Code\<close>, the same iteration of \<open>event_actions\<close> yields, for each payload
  text in order, the pair of the value of \<open>Code\<close> and the decoded dict, and ends in the
  same way and in the same state.
\<close>

theorem actions_decode_each_payload:
  assumes "stream_events n r = (xs, out, g)"
    and "list_all (\<lambda>x. map_of (decode_payload x) ''Code'' \<noteq> None) xs"
  shows "action_events n r =
     (map (\<lambda>x. (the (map_of (decode_payload x) ''Code''), decode_payload x)) xs, out, g)"
  using assms unfolding stream_events_def action_events_def by (rule consume_actions)

theorem actions_decode_each_payload_witness:
  "action_events 3 (fresh (''Content-Length: 6'' @ [CR, LF] @ ''Code=A'' @ [CR, LF] @
       ''Content-Length: 18'' @ [CR, LF] @ ''Code=B;action=Stop'' @ [CR, LF]) None) =
     ([(Str ''A'', [(''Code'', Str ''A'')]),
       (Str ''B'', [(''Code'', Str ''B''), (''action'', Str ''Stop'')])], Done,
      Finished \<lparr>pending = [], failure = None, opened = 1, released = 1, late_reads = 0,
        raised = [], seen = [''Content-Length: 6'', [], ''Content-Length: 18'', []]\<rparr>)"
proof -
  have ev: "stream_events 3 (fresh (''Content-Length: 6'' @ [CR, LF] @ ''Code=A'' @ [CR, LF] @
       ''Content-Length: 18'' @ [CR, LF] @ ''Code=B;action=Stop'' @ [CR, LF]) None) =
     ([''Code=A'', ''Code=B;action=Stop''], Done,
      Finished \<lparr>pending = [], failure = None, opened = 1, released = 1, late_reads = 0,
        raised = [], seen = [''Content-Length: 6'', [], ''Content-Length: 18'', []]\<rparr>)"
    by code_simp
  have d1: "decode_payload ''Code=A'' = [(''Code'', Str ''A'')]" by code_simp
  have d2: "decode_payload ''Code=B;action=Stop'' =
      [(''Code'', Str ''B''), (''action'', Str ''Stop'')]" by code_simp
  from actions_decode_each_payload [OF ev] show ?thesis
    by (simp add: d1 d2)
qed

end
